theory Spec2Isabelle
  imports
    Main
    "HOL-Library.Word"
    "HOL-Library.Signed_Division"
    "HOL-Library.Monad_Syntax"
begin

section \<open>The duration codec of \<^verbatim>\<open>mpd/segment.go\<close>\<close>

text \<open>
  The Go type \<^verbatim>\<open>Duration\<close> is \<^verbatim>\<open>time.Duration\<close>, an \<^verbatim>\<open>int64\<close> count of
  nanoseconds. It is modelled as a 64-bit word: \<open>+\<close>, \<open>-\<close> and \<open>*\<close> wrap around as Go's
  do, \<open>sint\<close> reads the signed value, and the conversion \<^verbatim>\<open>uint64(d)\<close> is the identity
  on the bits. Go strings are byte sequences, modelled as \<open>char list\<close>.
\<close>

subsection \<open>Durations and the unit ladder\<close>

type_synonym Duration = "64 word"

definition Nanosecond :: Duration where
  "Nanosecond = 1"

definition Microsecond :: Duration where
  "Microsecond = 1000 * Nanosecond"

definition Millisecond :: Duration where
  "Millisecond = 1000 * Microsecond"

definition Second :: Duration where
  "Second = 1000 * Millisecond"

definition Minute :: Duration where
  "Minute = 60 * Second"

definition Hour :: Duration where
  "Hour = 60 * Minute"

subsection \<open>Truncate\<close>

text \<open>
  Go's \<^verbatim>\<open>%\<close> on signed integers is the remainder of the division that truncates toward
  zero (the result has the sign of the dividend). \<open>go_rem\<close> is that operator on
  \<^verbatim>\<open>int64\<close>; \<^verbatim>\<open>Truncate\<close> only evaluates it when \<open>m > 0\<close>, so neither the division by
  zero (a run-time panic in Go) nor the overflowing case \<open>MinInt64 % -1\<close> can be reached
  through it.
\<close>

definition go_rem :: "Duration \<Rightarrow> Duration \<Rightarrow> Duration" where
  "go_rem d m = word_of_int (sint d smod sint m)"

definition Truncate :: "Duration \<Rightarrow> Duration \<Rightarrow> Duration" where
  "Truncate d m = (if m \<le>s 0 then d else d - go_rem d m)"

subsection \<open>Formatting: the byte buffer\<close>

text \<open>
  \<^verbatim>\<open>String\<close> fills a local array \<^verbatim>\<open>var buf [32]byte\<close> from the back and hands the
  slices \<^verbatim>\<open>buf[:w]\<close> to \<^verbatim>\<open>fmtFrac\<close> and \<^verbatim>\<open>fmtInt\<close>. Such a slice shares the array; it is
  modelled as the array together with the slice's length, and the callee returns the
  updated array. Every indexed write is bounds-checked as Go checks it: an index outside
  \<open>0 \<le> i < len\<close> is a run-time panic, the value \<open>None\<close> of the model. The write cursor
  \<^verbatim>\<open>w\<close> is a Go \<^verbatim>\<open>int\<close> (it could become negative), so it is an \<open>int\<close> here.
\<close>

type_synonym slice = "char list \<times> nat"

definition store :: "slice \<Rightarrow> int \<Rightarrow> char \<Rightarrow> char list option" where
  "store sl w c =
     (if 0 \<le> w \<and> w < int (snd sl) then Some ((fst sl)[nat w := c]) else None)"

text \<open>The slice expression \<^verbatim>\<open>buf[:w]\<close> panics unless \<open>0 \<le> w \<le> cap(buf)\<close>.\<close>

definition slice_to :: "char list \<Rightarrow> int \<Rightarrow> slice option" where
  "slice_to buf w = (if 0 \<le> w \<and> w \<le> int (length buf) then Some (buf, nat w) else None)"

text \<open>The slice expression \<^verbatim>\<open>buf[w:]\<close>, converted to a string.\<close>

definition slice_from :: "char list \<Rightarrow> int \<Rightarrow> string option" where
  "slice_from buf w = (if 0 \<le> w \<and> w \<le> int (length buf) then Some (drop (nat w) buf) else None)"

text \<open>\<^verbatim>\<open>byte(digit) + '0'\<close>: the conversion to a byte keeps the low 8 bits, the addition
  is modulo 256.\<close>

definition digit_byte :: "64 word \<Rightarrow> char" where
  "digit_byte digit = char_of (unat ((ucast digit :: 8 word) + 48))"

subsection \<open>fmtFrac\<close>

text \<open>
  The loop \<^verbatim>\<open>for i := 0; i < prec; i++\<close> of \<^verbatim>\<open>fmtFrac\<close>, by recursion on the number of
  iterations left. The state is the array, the cursor \<^verbatim>\<open>w\<close>, the flag \<^verbatim>\<open>print\<close> and
  the value \<^verbatim>\<open>v\<close>.
\<close>

fun fmtFrac_loop ::
  "nat \<Rightarrow> nat \<Rightarrow> char list \<Rightarrow> int \<Rightarrow> bool \<Rightarrow> 64 word \<Rightarrow> (char list \<times> int \<times> bool \<times> 64 word) option"
where
  "fmtFrac_loop 0 n buf w print v = Some (buf, w, print, v)"
| "fmtFrac_loop (Suc k) n buf w print v =
     (let digit = v mod 10;
          print = (print \<or> digit \<noteq> 0)
      in if print
         then (case store (buf, n) (w - 1) (digit_byte digit) of
                 None \<Rightarrow> None
               | Some buf' \<Rightarrow> fmtFrac_loop k n buf' (w - 1) print (v div 10))
         else fmtFrac_loop k n buf w print (v div 10))"

definition fmtFrac :: "slice \<Rightarrow> 64 word \<Rightarrow> int \<Rightarrow> (char list \<times> int \<times> 64 word) option" where
  "fmtFrac sl v prec =
     (case fmtFrac_loop (nat prec) (snd sl) (fst sl) (int (snd sl)) False v of
        None \<Rightarrow> None
      | Some (buf, w, print, v') \<Rightarrow>
          if print
          then (case store (buf, snd sl) (w - 1) (CHR ''.'') of
                  None \<Rightarrow> None
                | Some buf' \<Rightarrow> Some (buf', w - 1, v'))
          else Some (buf, w, v'))"

subsection \<open>fmtInt\<close>

text \<open>The loop \<^verbatim>\<open>for v > 0\<close> of \<^verbatim>\<open>fmtInt\<close>; it ends because \<^verbatim>\<open>v /= 10\<close> decreases \<open>v\<close>.\<close>

function fmtInt_loop :: "nat \<Rightarrow> char list \<Rightarrow> int \<Rightarrow> 64 word \<Rightarrow> (char list \<times> int) option" where
  "fmtInt_loop n buf w v =
     (if 0 < v
      then (case store (buf, n) (w - 1) (digit_byte (v mod 10)) of
              None \<Rightarrow> None
            | Some buf' \<Rightarrow> fmtInt_loop n buf' (w - 1) (v div 10))
      else Some (buf, w))"
  by pat_completeness auto
termination
proof (relation "measure (\<lambda>(n, buf, w, v). unat v)")
  show "wf (measure (\<lambda>(n, buf, w, v). unat v))"
    by simp
next
  fix n :: nat and buf :: "char list" and w :: int and v :: "64 word" and x2 :: "char list"
  assume "0 < v"
  then have "unat v \<noteq> 0"
    by (simp add: word_greater_zero_iff unat_eq_0)
  then have "unat v div 10 < unat v"
    by simp
  then show "((n, x2, w - 1, v div 10), (n, buf, w, v)) \<in> measure (\<lambda>(n, buf, w, v). unat v)"
    by (simp add: unat_div)
qed

definition fmtInt :: "slice \<Rightarrow> 64 word \<Rightarrow> (char list \<times> int) option" where
  "fmtInt sl v =
     (let w = int (snd sl)
      in if v = 0
         then (case store sl (w - 1) (CHR ''0'') of
                 None \<Rightarrow> None
               | Some buf' \<Rightarrow> Some (buf', w - 1))
         else fmtInt_loop (snd sl) (fst sl) w v)"

subsection \<open>String\<close>

text \<open>
  The tail shared by both branches of \<^verbatim>\<open>String\<close>:
  \<^verbatim>\<open>if neg { w--; buf[w] = '-' }; return "PT" + string(buf[w:])\<close>.
\<close>

definition String_finish :: "char list \<Rightarrow> int \<Rightarrow> bool \<Rightarrow> string option" where
  "String_finish buf w neg =
     (if neg
      then do {
        buf' \<leftarrow> store (buf, length buf) (w - 1) (CHR ''-'');
        s \<leftarrow> slice_from buf' (w - 1);
        Some (''PT'' @ s)
      }
      else do {
        s \<leftarrow> slice_from buf w;
        Some (''PT'' @ s)
      })"

text \<open>
  \<^verbatim>\<open>String\<close>. In the branch for durations under one second the source declares
  \<^verbatim>\<open>var prec int\<close> and never assigns it (the \<^verbatim>\<open>switch\<close> that did is commented out), so
  \<^verbatim>\<open>fmtFrac\<close> is called with \<open>prec = 0\<close>; the cursor is decremented twice around the write
  of \<^verbatim>\<open>'S'\<close>, so the byte at index 30 keeps the array's initial value 0.
\<close>

definition String :: "Duration \<Rightarrow> string option" where
  "String d =
     (let buf = replicate 32 (CHR 0x00);
          w = int (length buf);
          neg = (d <s 0);
          u = (if neg then - d else d)
      in if u < 1000000000
         then do {
           buf \<leftarrow> store (buf, length buf) (w - 1) (CHR ''S'');
           if u = 0 then Some ''PT0S''
           else do {
             sl \<leftarrow> slice_to buf (w - 2);
             (buf, w, u) \<leftarrow> fmtFrac sl u 0;
             sl \<leftarrow> slice_to buf w;
             (buf, w) \<leftarrow> fmtInt sl u;
             String_finish buf w neg
           }
         }
         else do {
           buf \<leftarrow> store (buf, length buf) (w - 1) (CHR ''S'');
           sl \<leftarrow> slice_to buf (w - 1);
           (buf, w, u) \<leftarrow> fmtFrac sl u 9;
           sl \<leftarrow> slice_to buf w;
           (buf, w) \<leftarrow> fmtInt sl (u mod 60);
           let u = u div 60
           in if 0 < u
           then do {
             buf \<leftarrow> store (buf, length buf) (w - 1) (CHR ''M'');
             sl \<leftarrow> slice_to buf (w - 1);
             (buf, w) \<leftarrow> fmtInt sl (u mod 60);
             let u = u div 60
             in if 0 < u
             then do {
               buf \<leftarrow> store (buf, length buf) (w - 1) (CHR ''H'');
               sl \<leftarrow> slice_to buf (w - 1);
               (buf, w) \<leftarrow> fmtInt sl u;
               String_finish buf w neg
             }
             else String_finish buf w neg
           }
           else String_finish buf w neg
         })"

subsection \<open>Regular expressions\<close>

text \<open>
  \<^verbatim>\<open>parseDuration\<close> validates its input with a regular expression of Go's
  \<^verbatim>\<open>regexp\<close> package. The expression is transcribed as a term of the datatype \<open>re\<close>,
  which has the constructs the source uses: \<^verbatim>\<open>^\<close> (\<open>Bot\<close>), \<^verbatim>\<open>$\<close> (\<open>Eot\<close>; without the
  flag \<^verbatim>\<open>m\<close> it matches at the end of the text only), a literal byte, \<^verbatim>\<open>[class]+\<close>
  (\<open>Plus\<close>, greedy), \<^verbatim>\<open>(...)?\<close> (\<open>Opt\<close>, greedy), concatenation and a numbered
  capturing group. The non-capturing group \<^verbatim>\<open>(?:...)\<close> only brackets its body.

  \<open>rmatch r (k, s, g)\<close> lists every way \<open>r\<close> can match a prefix of the remaining
  text \<open>s\<close>, which starts at offset \<open>k\<close> of the whole text, in the order of preference of
  Go's leftmost-first matching (a greedy operator tries the longer alternative first);
  \<open>g\<close> holds the text of the groups set so far.
\<close>

datatype re =
    Bot
  | Eot
  | Lit char
  | Plus "char list"
  | Opt re
  | Seq re re
  | Cap nat re

type_synonym mstate = "nat \<times> string \<times> string list"

fun rmatch :: "re \<Rightarrow> mstate \<Rightarrow> mstate list" where
  "rmatch Bot (k, s, g) = (if k = 0 then [(k, s, g)] else [])"
| "rmatch Eot (k, s, g) = (if s = [] then [(k, s, g)] else [])"
| "rmatch (Lit c) (k, s, g) =
     (case s of [] \<Rightarrow> [] | x # xs \<Rightarrow> if x = c then [(Suc k, xs, g)] else [])"
| "rmatch (Plus cs) (k, s, g) =
     map (\<lambda>j. (k + j, drop j s, g))
       (rev [1 ..< Suc (length (takeWhile (\<lambda>x. x \<in> set cs) s))])"
| "rmatch (Opt r) st = rmatch r st @ [st]"
| "rmatch (Seq a b) st = concat (map (rmatch b) (rmatch a st))"
| "rmatch (Cap i r) (k, s, g) =
     map (\<lambda>(k', s', g'). (k', s', g'[i := take (k' - k) s])) (rmatch r (k, s, g))"

text \<open>
  The match that starts at offset \<open>i\<close> of \<open>str\<close>, if there is one: the preferred way
  of matching there, with the whole match as group 0. A group that took no part in the
  match keeps the empty string, as in the result of \<^verbatim>\<open>FindStringSubmatch\<close>.
\<close>

definition match_at :: "re \<Rightarrow> nat \<Rightarrow> string \<Rightarrow> nat \<Rightarrow> string list option" where
  "match_at r ngroups str i =
     (case rmatch r (i, drop i str, replicate (Suc ngroups) []) of
        [] \<Rightarrow> None
      | (k', s', g) # _ \<Rightarrow> Some (g[0 := take (k' - i) (drop i str)]))"

fun first_match :: "re \<Rightarrow> nat \<Rightarrow> string \<Rightarrow> nat list \<Rightarrow> string list option" where
  "first_match r ngroups str [] = None"
| "first_match r ngroups str (i # is) =
     (case match_at r ngroups str i of
        None \<Rightarrow> first_match r ngroups str is
      | Some parts \<Rightarrow> Some parts)"

text \<open>\<^verbatim>\<open>FindStringSubmatch\<close>: the leftmost match, tried at every offset from 0 to the
  length of the text; \<open>None\<close> is Go's \<^verbatim>\<open>nil\<close>.\<close>

definition FindStringSubmatch :: "re \<Rightarrow> nat \<Rightarrow> string \<Rightarrow> string list option" where
  "FindStringSubmatch r ngroups str = first_match r ngroups str [0 ..< Suc (length str)]"

definition Match :: "re \<Rightarrow> nat \<Rightarrow> string \<Rightarrow> bool" where
  "Match r ngroups str = (FindStringSubmatch r ngroups str \<noteq> None)"

text \<open>The classes \<^verbatim>\<open>\d\<close> (the ASCII digits in Go) and \<^verbatim>\<open>[\d.]\<close>.\<close>

definition digits :: "char list" where
  "digits = ''0123456789''"

definition digits_dot :: "char list" where
  "digits_dot = ''0123456789.''"

text \<open>
  The pieces of the source, in its order:
  \<^verbatim>\<open>rStart = "^P"\<close>, \<^verbatim>\<open>rDays = "(\\d+D)?"\<close>, \<^verbatim>\<open>rTime = "(?:T"\<close>,
  \<^verbatim>\<open>rHours = "(\\d+H)?"\<close>, \<^verbatim>\<open>rMinutes = "(\\d+M)?"\<close>,
  \<^verbatim>\<open>rSeconds = "([\\d.]+S)?"\<close>, \<^verbatim>\<open>rEnd = ")?$"\<close>.
  \<^verbatim>\<open>rTime\<close> opens the group that \<^verbatim>\<open>rEnd\<close> closes, so the two are one constructor around
  the three time fields.
\<close>

definition rStart :: re where
  "rStart = Seq Bot (Lit (CHR ''P''))"

definition rDays :: re where
  "rDays = Opt (Cap 1 (Seq (Plus digits) (Lit (CHR ''D''))))"

definition rHours :: re where
  "rHours = Opt (Cap 2 (Seq (Plus digits) (Lit (CHR ''H''))))"

definition rMinutes :: re where
  "rMinutes = Opt (Cap 3 (Seq (Plus digits) (Lit (CHR ''M''))))"

definition rSeconds :: re where
  "rSeconds = Opt (Cap 4 (Seq (Plus digits_dot) (Lit (CHR ''S''))))"

definition rTime_rEnd :: "re \<Rightarrow> re" where
  "rTime_rEnd fields = Seq (Opt (Seq (Lit (CHR ''T'')) fields)) Eot"

definition xmlDurationRegex :: re where
  "xmlDurationRegex =
     Seq rStart (Seq rDays (rTime_rEnd (Seq rHours (Seq rMinutes rSeconds))))"

text \<open>
  The shape of one optional field of the grammar, used to state what the expression
  accepts: the text \<open>x\<close> of a field is empty (the field is absent), or it is one or
  more bytes of the class \<open>cls\<close> followed by the designator \<open>c\<close>.
\<close>

definition opt_field :: "char list \<Rightarrow> char \<Rightarrow> string \<Rightarrow> bool" where
  "opt_field cls c x =
     (x = [] \<or> (butlast x \<noteq> [] \<and> list_all (\<lambda>a. a \<in> set cls) (butlast x) \<and> last x = c))"

subsection \<open>Library functions used by parseDuration\<close>

text \<open>\<^verbatim>\<open>strings.Contains(s, substr)\<close>: \<open>substr\<close> occurs in \<open>s\<close> as a contiguous block.\<close>

fun Contains :: "string \<Rightarrow> string \<Rightarrow> bool" where
  "Contains [] substr = (substr = [])"
| "Contains (x # xs) substr =
     (take (length substr) (x # xs) = substr \<or> Contains xs substr)"

text \<open>\<^verbatim>\<open>strings.TrimRight(s, cutset)\<close> removes every trailing byte that is in \<open>cutset\<close>.\<close>

definition TrimRight :: "string \<Rightarrow> string \<Rightarrow> string" where
  "TrimRight s cutset = rev (dropWhile (\<lambda>c. c \<in> set cutset) (rev s))"

text \<open>
  The error of a \<^verbatim>\<open>strconv\<close> conversion is \<^verbatim>\<open>strconv.ErrSyntax\<close> or
  \<^verbatim>\<open>strconv.ErrRange\<close>.
\<close>

datatype conv_error = ErrSyntax | ErrRange

definition is_digit :: "char \<Rightarrow> bool" where
  "is_digit c = (c \<in> set digits)"

definition digit_val :: "char \<Rightarrow> int" where
  "digit_val c = of_char c - 48"

definition decimal :: "string \<Rightarrow> int" where
  "decimal ds = foldl (\<lambda>n c. 10 * n + digit_val c) 0 ds"

text \<open>
  \<^verbatim>\<open>strconv.Atoi\<close>, which is \<^verbatim>\<open>ParseInt(s, 10, 0)\<close> converted to \<^verbatim>\<open>int\<close>: an optional
  sign, then one or more decimal digits and nothing else (\<^verbatim>\<open>ErrSyntax\<close> otherwise); a
  value that does not fit the type \<^verbatim>\<open>int\<close> is \<^verbatim>\<open>ErrRange\<close>. The type \<^verbatim>\<open>int\<close> is taken to
  have 64 bits, as on every 64-bit platform of Go.
\<close>

definition Atoi :: "string \<Rightarrow> conv_error + 64 word" where
  "Atoi s =
     (let neg = (s \<noteq> [] \<and> hd s = CHR ''-'');
          ds = (if s \<noteq> [] \<and> (hd s = CHR ''-'' \<or> hd s = CHR ''+'') then tl s else s)
      in if ds = [] then Inl ErrSyntax
         else if list_ex (\<lambda>c. c \<notin> set digits) ds then Inl ErrSyntax
         else if neg
         then (if 2 ^ 63 < decimal ds then Inl ErrRange else Inr (- word_of_int (decimal ds)))
         else (if 2 ^ 63 \<le> decimal ds then Inl ErrRange else Inr (word_of_int (decimal ds))))"

subsection \<open>Floating point\<close>

text \<open>
  The seconds field goes through \<^verbatim>\<open>float64\<close>. The text of that field has no sign, so
  only values that are not negative occur. A finite one is \<open>Finite m e\<close>, standing for
  \<open>m * 2 ^ e\<close>; \<open>PosInf\<close> is the infinity an overflowing operation returns.

  \<open>f64_round p q\<close> is the \<^verbatim>\<open>float64\<close> nearest to the fraction \<open>p / q\<close>, with ties
  going to the even significand (IEEE 754 round-to-nearest-even): 53 bits of
  significand for a normal number, the fixed exponent \<open>-1074\<close> in the subnormal range,
  and overflow once the rounded value reaches \<open>2 ^ 1024\<close>.
\<close>

datatype f64 = Finite int int | PosInf

function bit_length :: "int \<Rightarrow> int" where
  "bit_length n = (if n \<le> 0 then 0 else 1 + bit_length (n div 2))"
  by pat_completeness auto
termination
  by (relation "measure nat") auto

text \<open>\<open>ilog2 p q\<close> is the integer \<open>e\<close> with \<open>2 ^ e \<le> p / q < 2 ^ (e + 1)\<close>, for positive
  \<open>p\<close> and \<open>q\<close>.\<close>

definition ilog2 :: "int \<Rightarrow> int \<Rightarrow> int" where
  "ilog2 p q =
     (let d = bit_length p - bit_length q
      in if (if 0 \<le> d then q * 2 ^ nat d \<le> p else q \<le> p * 2 ^ nat (- d))
         then d else d - 1)"

definition f64_round :: "int \<Rightarrow> int \<Rightarrow> f64" where
  "f64_round p q =
     (if p = 0 then Finite 0 0
      else
        let s = max (ilog2 p q - 52) (- 1074);
            num = (if 0 \<le> s then p else p * 2 ^ nat (- s));
            den = (if 0 \<le> s then q * 2 ^ nat s else q);
            n0 = num div den;
            r = num mod den;
            n = (if den < 2 * r \<or> (2 * r = den \<and> odd n0) then n0 + 1 else n0)
        in if 0 \<le> s \<and> 2 ^ 1024 \<le> n * 2 ^ nat s then PosInf else Finite n s)"

text \<open>The product of two finite values, rounded once.\<close>

definition f64_mul :: "f64 \<Rightarrow> f64 \<Rightarrow> f64" where
  "f64_mul x y =
     (case (x, y) of
        (Finite m1 e1, Finite m2 e2) \<Rightarrow>
          (let e = e1 + e2
           in if 0 \<le> e then f64_round (m1 * m2 * 2 ^ nat e) 1
              else f64_round (m1 * m2) (2 ^ nat (- e)))
      | _ \<Rightarrow> PosInf)"

text \<open>
  \<^verbatim>\<open>strconv.ParseFloat(s, 64)\<close> on a text made of digits and dots, which is all that
  \<^verbatim>\<open>parseDuration\<close> passes to it: the text is well formed when it has at least one digit
  and at most one dot; the result is the nearest \<^verbatim>\<open>float64\<close>, and \<^verbatim>\<open>ErrRange\<close> when that
  overflows. (The exponents, signs, hexadecimal forms, infinities and NaNs that the
  library also reads contain other bytes; the model answers \<open>ErrSyntax\<close> for them and is
  not meant for such texts.)
\<close>

definition ParseFloat :: "string \<Rightarrow> conv_error + f64" where
  "ParseFloat s =
     (let ip = takeWhile is_digit s;
          rest = dropWhile is_digit s;
          fp = (if rest = [] then [] else tl rest)
      in if rest \<noteq> [] \<and> hd rest \<noteq> CHR ''.'' then Inl ErrSyntax
         else if list_ex (\<lambda>c. c \<notin> set digits) fp then Inl ErrSyntax
         else if ip = [] \<and> fp = [] then Inl ErrSyntax
         else (case f64_round (decimal (ip @ fp)) (10 ^ length fp) of
                 PosInf \<Rightarrow> Inl ErrRange
               | Finite m e \<Rightarrow> Inr (Finite m e)))"

text \<open>
  The conversion \<^verbatim>\<open>time.Duration(x)\<close> of a \<^verbatim>\<open>float64\<close> discards the fraction. When the
  value does not fit \<^verbatim>\<open>int64\<close> the conversion still succeeds, with a result that the
  language leaves to the implementation: the parameter \<open>oor\<close> gives it.
\<close>

definition f64_to_int64 :: "(f64 \<Rightarrow> 64 word) \<Rightarrow> f64 \<Rightarrow> 64 word" where
  "f64_to_int64 oor x =
     (case x of
        PosInf \<Rightarrow> oor x
      | Finite m e \<Rightarrow>
          (let t = (if 0 \<le> e then m * 2 ^ nat e else m div 2 ^ nat (- e))
           in if t < 2 ^ 63 then word_of_int t else oor x))"

text \<open>
  On amd64 the conversion instruction answers \<open>0x8000000000000000\<close> for every value
  that is out of range; this instance of the parameter is used where a theorem is
  evaluated on a concrete input.
\<close>

definition oor_amd64 :: "f64 \<Rightarrow> 64 word" where
  "oor_amd64 x = 0x8000000000000000"

subsection \<open>parseDuration\<close>

text \<open>
  The errors of \<^verbatim>\<open>parseDuration\<close>, in the order of the source:
  \<^verbatim>\<open>"At least one number and designator are required"\<close>,
  \<^verbatim>\<open>"Duration cannot be negative"\<close>,
  \<^verbatim>\<open>"Duration must be in the format: P[nD][T[nH][nM][nS]]"\<close>, and the four
  \<^verbatim>\<open>"Error parsing Days: ..."\<close>, \<^verbatim>\<open>Hours\<close>, \<^verbatim>\<open>Minutes\<close>, \<^verbatim>\<open>Seconds\<close> that wrap the error of
  a conversion. \<open>IndexPanic\<close> stands for the run-time panic of indexing \<^verbatim>\<open>parts\<close> out of
  range.
\<close>

datatype error =
    TooShort
  | Negative
  | BadFormat
  | ParsingDays conv_error
  | ParsingHours conv_error
  | ParsingMinutes conv_error
  | ParsingSeconds conv_error
  | IndexPanic

definition index :: "string list \<Rightarrow> nat \<Rightarrow> error + string" where
  "index parts i = (if i < length parts then Inr (parts ! i) else Inl IndexPanic)"

text \<open>One block \<^verbatim>\<open>if parts[i] != "" { n, err := strconv.Atoi(...); ...; total += ... }\<close>
  for days, hours or minutes; \<open>unit\<close> is the duration of one of them and \<open>tot\<close> the
  variable \<^verbatim>\<open>total\<close>. The arithmetic is that of \<^verbatim>\<open>int64\<close>, which wraps around. For days
  the source writes \<^verbatim>\<open>time.Duration(days) * time.Hour * 24\<close>; the unit is \<open>Hour * 24\<close>
  here, the same product modulo \<open>2 ^ 64\<close>.\<close>

definition int_field ::
  "string list \<Rightarrow> nat \<Rightarrow> string \<Rightarrow> (conv_error \<Rightarrow> error) \<Rightarrow> Duration \<Rightarrow> Duration \<Rightarrow> error + Duration"
where
  "int_field parts i designator wrap unit tot =
     (case index parts i of
        Inl e \<Rightarrow> Inl e
      | Inr part \<Rightarrow>
          if part \<noteq> []
          then (case Atoi (TrimRight part designator) of
                  Inl err \<Rightarrow> Inl (wrap err)
                | Inr n \<Rightarrow> Inr (tot + n * unit))
          else Inr tot)"

text \<open>The block for seconds:
  \<^verbatim>\<open>total += time.Duration(secs * float64(time.Second))\<close>.\<close>

definition float_field ::
  "(f64 \<Rightarrow> 64 word) \<Rightarrow> string list \<Rightarrow> Duration \<Rightarrow> error + Duration"
where
  "float_field oor parts tot =
     (case index parts 4 of
        Inl e \<Rightarrow> Inl e
      | Inr part \<Rightarrow>
          if part \<noteq> []
          then (case ParseFloat (TrimRight part ''S'') of
                  Inl err \<Rightarrow> Inl (ParsingSeconds err)
                | Inr secs \<Rightarrow>
                    Inr (tot + f64_to_int64 oor (f64_mul secs (Finite 1000000000 0))))
          else Inr tot)"

definition parseDuration :: "(f64 \<Rightarrow> 64 word) \<Rightarrow> string \<Rightarrow> error + Duration" where
  "parseDuration oor str =
     (if length str < 3 then Inl TooShort
      else if Contains str ''-'' then Inl Negative
      else if \<not> Match xmlDurationRegex 4 str then Inl BadFormat
      else
        (case FindStringSubmatch xmlDurationRegex 4 str of
           None \<Rightarrow> Inl IndexPanic
         | Some parts \<Rightarrow>
             (case int_field parts 1 ''D'' ParsingDays (Hour * 24) 0 of
                Inl e \<Rightarrow> Inl e
              | Inr tot \<Rightarrow>
             (case int_field parts 2 ''H'' ParsingHours Hour tot of
                Inl e \<Rightarrow> Inl e
              | Inr tot \<Rightarrow>
             (case int_field parts 3 ''M'' ParsingMinutes Minute tot of
                Inl e \<Rightarrow> Inl e
              | Inr tot \<Rightarrow>
                  float_field oor parts tot)))))"

subsection \<open>UnmarshalXMLAttr\<close>

text \<open>
  The method has a pointer receiver: the state is the \<^verbatim>\<open>Duration\<close> it points to. The
  model takes that value and the attribute's text, and returns the value after the call
  with the error (\<open>None\<close> is \<^verbatim>\<open>nil\<close>).
\<close>

definition UnmarshalXMLAttr ::
  "(f64 \<Rightarrow> 64 word) \<Rightarrow> Duration \<Rightarrow> string \<Rightarrow> Duration \<times> error option"
where
  "UnmarshalXMLAttr oor d attr_value =
     (case parseDuration oor attr_value of
        Inl err \<Rightarrow> (d, Some err)
      | Inr dur \<Rightarrow> (dur, None))"

section \<open>Properties\<close>

subsection \<open>Formatting of durations under one second\<close>

text \<open>
  C1. The specification asks that a duration \<open>d\<close> with \<open>0 < |d| < Second\<close> be written
  with a seconds field only, carrying up to nine digits of fraction without trailing
  zeros, so that \<open>500 * Millisecond\<close> is \<^verbatim>\<open>"PT0.5S"\<close>. The code does not do that: in
  this branch \<^verbatim>\<open>fmtFrac\<close> runs with \<open>prec = 0\<close> and writes nothing, \<^verbatim>\<open>fmtInt\<close> prints the
  whole count of nanoseconds, and the byte between the digits and \<^verbatim>\<open>S\<close> is never
  written. The result for \<open>500 * Millisecond\<close> is \<^verbatim>\<open>PT500000000\<close>, a zero byte, \<^verbatim>\<open>S\<close>.
  Only the exact zero is written as the specification says, \<^verbatim>\<open>"PT0S"\<close>.
\<close>

theorem String_500ms_actual:
  "String (500 * Millisecond) = Some (''PT500000000'' @ [CHR 0x00, CHR ''S''])
   \<and> String (500 * Millisecond) \<noteq> Some ''PT0.5S''
   \<and> String 0 = Some ''PT0S''"
  by code_simp

subsection \<open>The sign of a negative duration\<close>

text \<open>
  C5. The specification places the \<^verbatim>\<open>-\<close> of a negative duration ahead of the prefix
  \<^verbatim>\<open>PT\<close>, as the XML duration format has it. The code writes the sign into the buffer
  and then puts \<^verbatim>\<open>PT\<close> in front of the buffer's content, so the sign comes after the
  prefix: minus one second is \<^verbatim>\<open>"PT-1S"\<close>, not \<^verbatim>\<open>"-PT1S"\<close>.
\<close>

theorem String_negative_second_actual:
  "String (- Second) = Some ''PT-1S'' \<and> String (- Second) \<noteq> Some ''-PT1S''"
  by code_simp

subsection \<open>Rejected inputs\<close>

text \<open>
  C6. Each of the inputs \<^verbatim>\<open>""\<close>, \<^verbatim>\<open>"1H"\<close>, \<^verbatim>\<open>"P-1D"\<close>, \<^verbatim>\<open>"P1Y"\<close> and \<^verbatim>\<open>"PT1M1H"\<close> makes
  \<^verbatim>\<open>parseDuration\<close> fail with an error of its format validation, and no duration is
  produced: the first two are shorter than three bytes, the third contains \<^verbatim>\<open>-\<close>, the
  last two do not match the grammar.
\<close>

theorem parseDuration_rejection_set:
  "parseDuration oor '''' = Inl TooShort
   \<and> parseDuration oor ''1H'' = Inl TooShort
   \<and> parseDuration oor ''P-1D'' = Inl Negative
   \<and> parseDuration oor ''P1Y'' = Inl BadFormat
   \<and> parseDuration oor ''PT1M1H'' = Inl BadFormat"
  by code_simp

subsection \<open>Inputs with a minus sign\<close>




text \<open>
  The check is on the text. The sum of the fields is formed in \<^verbatim>\<open>int64\<close> without a
  test for overflow, so a text without \<^verbatim>\<open>-\<close> can still yield a negative value:
  106752 days are more than \<^verbatim>\<open>int64\<close> nanoseconds hold, and the product wraps around.
\<close>

lemma parseDuration_wraps_around:
  "parseDuration oor ''P106752D'' = Inr (- 9223371273709551616)
   \<and> (- 9223371273709551616 :: Duration) <s 0"
  by code_simp

subsection \<open>UnmarshalXMLAttr\<close>

lemma parseDuration_P1Y: "parseDuration oor_amd64 ''P1Y'' = Inl BadFormat"
  by code_simp

lemma parseDuration_PT1M30S: "parseDuration oor_amd64 ''PT1M30S'' = Inr (90 * Second)"
  by code_simp

text \<open>
  C10. \<^verbatim>\<open>UnmarshalXMLAttr\<close> is atomic on failure: when \<^verbatim>\<open>parseDuration\<close> returns an error
  for the attribute's value, the method returns that error and the receiver keeps the
  value it had; the receiver is overwritten, with the parsed duration, only when parsing
  succeeds.
\<close>

theorem UnmarshalXMLAttr_atomic:
  "(parseDuration oor v = Inl e \<longrightarrow> UnmarshalXMLAttr oor d v = (d, Some e))
   \<and> (parseDuration oor v = Inr dur \<longrightarrow> UnmarshalXMLAttr oor d v = (dur, None))"
  by (simp add: UnmarshalXMLAttr_def)

theorem UnmarshalXMLAttr_atomic_witness:
  "parseDuration oor_amd64 ''P1Y'' = Inl BadFormat
   \<and> UnmarshalXMLAttr oor_amd64 5 ''P1Y'' = (5, Some BadFormat)
   \<and> parseDuration oor_amd64 ''PT1M30S'' = Inr (90 * Second)
   \<and> UnmarshalXMLAttr oor_amd64 5 ''PT1M30S'' = (90 * Second, None)"
  using UnmarshalXMLAttr_atomic [of oor_amd64 "''P1Y''" BadFormat 5 "90 * Second"]
        UnmarshalXMLAttr_atomic [of oor_amd64 "''PT1M30S''" BadFormat 5 "90 * Second"]
        parseDuration_P1Y parseDuration_PT1M30S
  by simp

subsection \<open>Truncate\<close>

lemma smod_abs_less:
  fixes a b :: int
  assumes "0 < b"
  shows "\<bar>a smod b\<bar> < b"
  using assms by (simp add: signed_modulo_int_def abs_mult abs_sgn_eq)

lemma smod_nonneg:
  fixes a b :: int
  assumes "0 < b" "0 \<le> a"
  shows "0 \<le> a smod b \<and> a smod b \<le> a"
  using assms by (simp add: signed_modulo_int_def sgn_if zmod_le_nonneg_dividend)

lemma smod_nonpos:
  fixes a b :: int
  assumes "0 < b" "a \<le> 0"
  shows "a \<le> a smod b \<and> a smod b \<le> 0"
proof -
  have "(- a) mod b \<le> - a"
    using assms by (simp add: zmod_le_nonneg_dividend)
  moreover have "0 \<le> (- a) mod b"
    using assms by simp
  ultimately show ?thesis
    using assms by (simp add: signed_modulo_int_def sgn_if)
qed

lemma sint_word_of_int_64:
  fixes k :: int
  assumes "- (2 ^ 63) \<le> k" "k < 2 ^ 63"
  shows "sint (word_of_int k :: 64 word) = k"
  using assms by (simp add: sint_sbintrunc' signed_take_bit_int_eq_self)

text \<open>With a positive unit no step of \<^verbatim>\<open>d - d%m\<close> overflows: the remainder lies between
  0 and \<open>d\<close>.\<close>

lemma sint_Truncate:
  assumes "0 <s m"
  shows "sint (Truncate d m) = sint d - sint d smod sint m"
proof -
  have m: "0 < sint m"
    using assms by (simp add: word_sless_alt)
  let ?r = "sint d smod sint m"
  have range: "- (2 ^ 63) \<le> sint d" "sint d < 2 ^ 63"
    using sint_ge [of d] sint_lt [of d] by simp_all
  have bounds: "- (2 ^ 63) \<le> sint d - ?r" "sint d - ?r < 2 ^ 63"
    using smod_nonneg [OF m, of "sint d"] smod_nonpos [OF m, of "sint d"] range
    by (cases "0 \<le> sint d"; simp)+
  have eq: "Truncate d m = word_of_int (sint d - ?r)"
    using assms by (simp add: Truncate_def go_rem_def word_sle_eq word_sless_alt)
  show ?thesis
    unfolding eq by (rule sint_word_of_int_64 [OF bounds])
qed

text \<open>
  C8. For every duration \<open>d\<close> and unit \<open>m\<close>: if \<open>m \<le> 0\<close> then \<open>Truncate d m\<close> is \<open>d\<close>
  unchanged; otherwise it is \<open>d\<close> rounded toward zero to a multiple of \<open>m\<close>, that is
  \<open>m\<close> times the quotient of \<open>d\<close> by \<open>m\<close> truncated toward zero (\<open>sdiv\<close>), a value no
  further from zero than \<open>d\<close> and less than \<open>m\<close> away from \<open>d\<close>. In particular
  \<open>Truncate (90 * Second) Minute = 60 * Second\<close>.
\<close>

theorem Truncate_rounds_toward_zero:
  "(m \<le>s 0 \<longrightarrow> Truncate d m = d)
   \<and> (0 <s m \<longrightarrow>
        sint (Truncate d m) = sint m * (sint d sdiv sint m)
        \<and> \<bar>sint (Truncate d m)\<bar> \<le> \<bar>sint d\<bar>
        \<and> \<bar>sint d - sint (Truncate d m)\<bar> < sint m)
   \<and> Truncate (90 * Second) Minute = 60 * Second"
proof (intro conjI impI)
  show "Truncate d m = d" if "m \<le>s 0"
    using that by (simp add: Truncate_def)
next
  assume m: "0 <s m"
  then have pos: "0 < sint m"
    by (simp add: word_sless_alt)
  show "sint (Truncate d m) = sint m * (sint d sdiv sint m)"
    by (simp add: sint_Truncate [OF m] minus_smod_eq_mult_sdiv)
  show "\<bar>sint (Truncate d m)\<bar> \<le> \<bar>sint d\<bar>"
    using smod_nonneg [OF pos, of "sint d"] smod_nonpos [OF pos, of "sint d"]
    by (cases "0 \<le> sint d") (auto simp: sint_Truncate [OF m])
  show "\<bar>sint d - sint (Truncate d m)\<bar> < sint m"
    using smod_abs_less [OF pos, of "sint d"] by (simp add: sint_Truncate [OF m])
next
  show "Truncate (90 * Second) Minute = 60 * Second"
    by code_simp
qed

theorem Truncate_rounds_toward_zero_witness:
  "(0::64 word) \<le>s 0 \<and> Truncate (90 * Second) 0 = 90 * Second
   \<and> 0 <s Minute
   \<and> sint (Truncate (- (90 * Second)) Minute)
       = sint Minute * (sint (- (90 * Second)) sdiv sint Minute)
   \<and> sint (Truncate (- (90 * Second)) Minute) = - 60000000000"
proof -
  have a: "(0::64 word) \<le>s 0"
    by simp
  have b: "0 <s Minute"
    by code_simp
  have c: "Truncate (- (90 * Second)) Minute = - (60 * Second)"
    by code_simp
  have d: "sint (- (60 * Second)) = - 60000000000"
    by code_simp
  show ?thesis
    using Truncate_rounds_toward_zero [of 0 "90 * Second"]
      Truncate_rounds_toward_zero [of Minute "- (90 * Second)"] a b c d
    by simp
qed

subsection \<open>Round trip on the literal cases\<close>

text \<open>
  C2, as the specification states it, fails in one of its four cases: the formatter
  always writes the seconds field, so \<open>Hour + 30 * Minute\<close> is not written as
  \<^verbatim>\<open>"PT1H30M"\<close> but as \<^verbatim>\<open>"PT1H30M0S"\<close>.
\<close>

theorem String_hour_thirty_counterexample:
  "String (Hour + 30 * Minute) = Some ''PT1H30M0S''
   \<and> String (Hour + 30 * Minute) \<noteq> Some ''PT1H30M''"
  by code_simp

text \<open>
  C2, amended. \<^verbatim>\<open>parseDuration\<close> after \<^verbatim>\<open>String\<close> is the identity, tick for tick, on
  these values: 0 is written \<^verbatim>\<open>"PT0S"\<close> and read back as 0; \<open>90 * Second\<close> is written
  \<^verbatim>\<open>"PT1M30S"\<close> and read back as 90 seconds; \<open>3661 * Second\<close> is written \<^verbatim>\<open>"PT1H1M1S"\<close>
  and read back; \<open>Hour + 30 * Minute\<close> is written \<^verbatim>\<open>"PT1H30M0S"\<close> and read back.
\<close>

theorem roundtrip_literal_cases:
  "String 0 = Some ''PT0S'' \<and> parseDuration oor ''PT0S'' = Inr 0
   \<and> String (90 * Second) = Some ''PT1M30S''
   \<and> parseDuration oor ''PT1M30S'' = Inr (90 * Second)
   \<and> String (3661 * Second) = Some ''PT1H1M1S''
   \<and> parseDuration oor ''PT1H1M1S'' = Inr (3661 * Second)
   \<and> String (Hour + 30 * Minute) = Some ''PT1H30M0S''
   \<and> parseDuration oor ''PT1H30M0S'' = Inr (Hour + 30 * Minute)"
  by code_simp

subsection \<open>Formatting never fails\<close>

declare fmtInt_loop.simps [simp del]

lemma store_ok:
  assumes "0 \<le> w" "w < int n"
  shows "store (buf, n) w c = Some (buf[nat w := c])"
  using assms by (simp add: store_def)

lemma slice_to_ok:
  assumes "0 \<le> w" "w \<le> int (length buf)"
  shows "slice_to buf w = Some (buf, nat w)"
  using assms by (simp add: slice_to_def)

text \<open>A value below \<open>10 ^ k\<close> has at most \<open>k\<close> digits, and the loop of \<^verbatim>\<open>fmtInt\<close> moves
  the cursor by at most \<open>k\<close>.\<close>

lemma fmtInt_loop_ok:
  assumes "unat v < 10 ^ k" "int k \<le> w" "w \<le> int n"
  shows "\<exists>buf' w'. fmtInt_loop n buf w v = Some (buf', w')
           \<and> w - int k \<le> w' \<and> w' \<le> w \<and> length buf' = length buf"
  using assms
proof (induction k arbitrary: buf w v)
  case 0
  then have "v = 0"
    by (simp add: unat_eq_0)
  then show ?case
    by (simp add: fmtInt_loop.simps)
next
  case (Suc k)
  show ?case
  proof (cases "0 < v")
    case False
    then show ?thesis
      by (simp add: fmtInt_loop.simps)
  next
    case True
    let ?buf = "buf[nat (w - 1) := digit_byte (v mod 10)]"
    have st: "store (buf, n) (w - 1) (digit_byte (v mod 10)) = Some ?buf"
      using Suc.prems by (intro store_ok) simp_all
    have "unat (v div 10) < 10 ^ k"
      using Suc.prems(1) by (simp add: unat_div)
    from Suc.IH [OF this, of "w - 1" ?buf] Suc.prems
    obtain buf' w' where "fmtInt_loop n ?buf (w - 1) (v div 10) = Some (buf', w')"
      "w - 1 - int k \<le> w'" "w' \<le> w - 1" "length buf' = length buf"
      by auto
    then show ?thesis
      using True st by (subst fmtInt_loop.simps) simp
  qed
qed

lemma fmtInt_ok:
  assumes "unat v < 10 ^ k" "0 < k" "k \<le> n"
  shows "\<exists>buf' w'. fmtInt (buf, n) v = Some (buf', w')
           \<and> int n - int k \<le> w' \<and> w' \<le> int n \<and> length buf' = length buf"
proof (cases "v = 0")
  case True
  have "store (buf, n) (int n - 1) (CHR ''0'') = Some (buf[nat (int n - 1) := CHR ''0''])"
    using assms by (intro store_ok) simp_all
  then show ?thesis
    using True assms by (simp add: fmtInt_def Let_def)
next
  case False
  then show ?thesis
    using fmtInt_loop_ok [of v k "int n" n buf] assms by (simp add: fmtInt_def Let_def)
qed

text \<open>\<^verbatim>\<open>fmtFrac\<close> with precision \<open>k\<close> moves the cursor by at most \<open>k + 1\<close> and leaves
  \<open>v / 10 ^ k\<close>.\<close>

lemma fmtFrac_loop_ok:
  assumes "int k \<le> w" "w \<le> int n"
  shows "\<exists>buf' w' p' v'. fmtFrac_loop k n buf w p v = Some (buf', w', p', v')
           \<and> w - int k \<le> w' \<and> w' \<le> w \<and> length buf' = length buf
           \<and> unat v' = unat v div 10 ^ k"
  using assms
proof (induction k arbitrary: buf w p v)
  case 0
  then show ?case by simp
next
  case (Suc k)
  let ?p = "p \<or> v mod 10 \<noteq> 0"
  let ?buf = "buf[nat (w - 1) := digit_byte (v mod 10)]"
  have st: "store (buf, n) (w - 1) (digit_byte (v mod 10)) = Some ?buf"
    using Suc.prems by (intro store_ok) simp_all
  have dv: "unat (v div 10) div 10 ^ k = unat v div 10 ^ Suc k"
    by (simp add: unat_div div_mult2_eq)
  show ?case
  proof (cases ?p)
    case True
    from Suc.IH [of "w - 1" ?buf True "v div 10"] Suc.prems
    obtain buf' w' p' v' where
      "fmtFrac_loop k n ?buf (w - 1) True (v div 10) = Some (buf', w', p', v')"
      "w - 1 - int k \<le> w'" "w' \<le> w - 1" "length buf' = length buf"
      "unat v' = unat (v div 10) div 10 ^ k"
      by auto
    then show ?thesis
      using True st dv by (simp add: Let_def)
  next
    case False
    from Suc.IH [of w buf False "v div 10"] Suc.prems
    obtain buf' w' p' v' where
      "fmtFrac_loop k n buf w False (v div 10) = Some (buf', w', p', v')"
      "w - int k \<le> w'" "w' \<le> w" "length buf' = length buf"
      "unat v' = unat (v div 10) div 10 ^ k"
      by auto
    then show ?thesis
      using False dv by (simp add: Let_def)
  qed
qed

lemma fmtFrac_ok:
  assumes "Suc k \<le> n"
  shows "\<exists>buf' w' v'. fmtFrac (buf, n) v (int k) = Some (buf', w', v')
           \<and> int n - int k - 1 \<le> w' \<and> w' \<le> int n \<and> length buf' = length buf
           \<and> unat v' = unat v div 10 ^ k"
proof -
  from fmtFrac_loop_ok [of k "int n" n buf False v] assms
  obtain buf' w' p' v' where
    loop: "fmtFrac_loop k n buf (int n) False v = Some (buf', w', p', v')"
    and b: "int n - int k \<le> w'" "w' \<le> int n" "length buf' = length buf"
    and v: "unat v' = unat v div 10 ^ k"
    by auto
  have st: "store (buf', n) (w' - 1) (CHR ''.'') = Some (buf'[nat (w' - 1) := CHR ''.''])"
    using b assms by (intro store_ok) simp_all
  show ?thesis
    using loop b v st by (cases p') (simp_all add: fmtFrac_def)
qed

lemma String_finish_ok:
  assumes "1 \<le> w" "w \<le> int (length buf)"
  shows "\<exists>s. String_finish buf w neg = Some s"
proof (cases neg)
  case True
  have "store (buf, length buf) (w - 1) (CHR ''-'') = Some (buf[nat (w - 1) := CHR ''-''])"
    using assms by (intro store_ok) simp_all
  then show ?thesis
    using True assms by (simp add: String_finish_def slice_from_def)
next
  case False
  then show ?thesis
    using assms by (simp add: String_finish_def slice_from_def)
qed

text \<open>The stages of the branch for a second or more, from the innermost: the hours
  (at most 7 digits), the minutes, the seconds with their fraction.\<close>

lemma hours_stage_ok:
  assumes len: "length buf = 32" and w: "9 \<le> w" "w \<le> 32" and u: "unat u < 10 ^ 7"
  shows "\<exists>s. (do {
            buf \<leftarrow> store (buf, length buf) (w - 1) (CHR ''H'');
            sl \<leftarrow> slice_to buf (w - 1);
            (buf, w) \<leftarrow> fmtInt sl u;
            String_finish buf w neg
          }) = Some s"
proof -
  let ?b1 = "buf[nat (w - 1) := CHR ''H'']"
  have st: "store (buf, length buf) (w - 1) (CHR ''H'') = Some ?b1"
    using len w by (intro store_ok) simp_all
  have sl: "slice_to ?b1 (w - 1) = Some (?b1, nat (w - 1))"
    using len w by (intro slice_to_ok) simp_all
  have k: "(7::nat) \<le> nat (w - 1)"
    using w by linarith
  have eq: "int (nat (w - 1)) = w - 1"
    using w by simp
  from fmtInt_ok [OF u _ k, of ?b1]
  obtain b2 w2 where fi: "fmtInt (?b1, nat (w - 1)) u = Some (b2, w2)"
    and b: "w - 1 - 7 \<le> w2" "w2 \<le> w - 1" "length b2 = length ?b1"
    unfolding eq by auto
  from String_finish_ok [of w2 b2 neg] b w len
  obtain s where "String_finish b2 w2 neg = Some s"
    by auto
  then show ?thesis
    using st sl fi by simp
qed

lemma minutes_stage_ok:
  assumes len: "length buf = 32" and w: "12 \<le> w" "w \<le> 32" and u: "unat u < 60 * 10 ^ 7"
  shows "\<exists>s. (do {
            buf \<leftarrow> store (buf, length buf) (w - 1) (CHR ''M'');
            sl \<leftarrow> slice_to buf (w - 1);
            (buf, w) \<leftarrow> fmtInt sl (u mod 60);
            let u = u div 60
            in if 0 < u
            then do {
              buf \<leftarrow> store (buf, length buf) (w - 1) (CHR ''H'');
              sl \<leftarrow> slice_to buf (w - 1);
              (buf, w) \<leftarrow> fmtInt sl u;
              String_finish buf w neg
            }
            else String_finish buf w neg
          }) = Some s"
proof -
  let ?b1 = "buf[nat (w - 1) := CHR ''M'']"
  have st: "store (buf, length buf) (w - 1) (CHR ''M'') = Some ?b1"
    using len w by (intro store_ok) simp_all
  have sl: "slice_to ?b1 (w - 1) = Some (?b1, nat (w - 1))"
    using len w by (intro slice_to_ok) simp_all
  have k: "(2::nat) \<le> nat (w - 1)"
    using w by linarith
  have eq: "int (nat (w - 1)) = w - 1"
    using w by simp
  have m: "unat (u mod 60) < 10 ^ 2"
    by (simp add: unat_mod)
  from fmtInt_ok [OF m _ k, of ?b1]
  obtain b2 w2 where fi: "fmtInt (?b1, nat (w - 1)) (u mod 60) = Some (b2, w2)"
    and b: "w - 1 - 2 \<le> w2" "w2 \<le> w - 1" "length b2 = length ?b1"
    unfolding eq by auto
  have u': "unat (u div 60) < 10 ^ 7"
    using u by (simp add: unat_div)
  have b2: "length b2 = 32" "9 \<le> w2" "w2 \<le> 32"
    using b w len by simp_all
  from hours_stage_ok [OF b2 u', of neg]
  obtain s1 where h: "(do {
            buf \<leftarrow> store (b2, length b2) (w2 - 1) (CHR ''H'');
            sl \<leftarrow> slice_to buf (w2 - 1);
            (buf, w) \<leftarrow> fmtInt sl (u div 60);
            String_finish buf w neg
          }) = Some s1"
    by auto
  from String_finish_ok [of w2 b2 neg] b2
  obtain s2 where f: "String_finish b2 w2 neg = Some s2"
    by auto
  show ?thesis
    using st sl fi h f by (simp add: Let_def)
qed

lemma long_branch_ok:
  assumes len: "length buf = 32"
  shows "\<exists>s. (do {
           buf \<leftarrow> store (buf, length buf) 31 (CHR ''S'');
           sl \<leftarrow> slice_to buf 31;
           (buf, w, u) \<leftarrow> fmtFrac sl u 9;
           sl \<leftarrow> slice_to buf w;
           (buf, w) \<leftarrow> fmtInt sl (u mod 60);
           let u = u div 60
           in if 0 < u
           then do {
             buf \<leftarrow> store (buf, length buf) (w - 1) (CHR ''M'');
             sl \<leftarrow> slice_to buf (w - 1);
             (buf, w) \<leftarrow> fmtInt sl (u mod 60);
             let u = u div 60
             in if 0 < u
             then do {
               buf \<leftarrow> store (buf, length buf) (w - 1) (CHR ''H'');
               sl \<leftarrow> slice_to buf (w - 1);
               (buf, w) \<leftarrow> fmtInt sl u;
               String_finish buf w neg
             }
             else String_finish buf w neg
           }
           else String_finish buf w neg
         }) = Some s"
proof -
  let ?b1 = "buf[nat 31 := CHR ''S'']"
  have st: "store (buf, length buf) 31 (CHR ''S'') = Some ?b1"
    using len by (intro store_ok) simp_all
  have sl: "slice_to ?b1 31 = Some (?b1, nat 31)"
    using len by (intro slice_to_ok) simp_all
  have "Suc 9 \<le> nat 31"
    by simp
  from fmtFrac_ok [OF this, of ?b1 u]
  obtain b2 w2 u2 where ff: "fmtFrac (?b1, nat 31) u (int 9) = Some (b2, w2, u2)"
    and b2: "21 \<le> w2" "w2 \<le> 31" "length b2 = 32"
    and u2: "unat u2 = unat u div 10 ^ 9"
    using len by auto
  have "unat u < 2 ^ 64"
    using unsigned_less [of u, where 'a = nat] by simp
  then have u2': "unat u2 < 18446744074"
    unfolding u2 by simp
  have sl2: "slice_to b2 w2 = Some (b2, nat w2)"
    using b2 by (intro slice_to_ok) simp_all
  have k: "(2::nat) \<le> nat w2"
    using b2 by linarith
  have eq: "int (nat w2) = w2"
    using b2 by simp
  have m: "unat (u2 mod 60) < 10 ^ 2"
    by (simp add: unat_mod)
  from fmtInt_ok [OF m _ k, of b2]
  obtain b3 w3 where fi: "fmtInt (b2, nat w2) (u2 mod 60) = Some (b3, w3)"
    and b3: "w2 - 2 \<le> w3" "w3 \<le> w2" "length b3 = length b2"
    unfolding eq by auto
  have u3: "unat (u2 div 60) < 60 * 10 ^ 7"
    using u2' by (simp add: unat_div)
  have b3': "length b3 = 32" "12 \<le> w3" "w3 \<le> 32"
    using b2 b3 by simp_all
  from minutes_stage_ok [OF b3' u3, of neg]
  obtain s1 where h: "(do {
            buf \<leftarrow> store (b3, length b3) (w3 - 1) (CHR ''M'');
            sl \<leftarrow> slice_to buf (w3 - 1);
            (buf, w) \<leftarrow> fmtInt sl (u2 div 60 mod 60);
            let u = u2 div 60 div 60
            in if 0 < u
            then do {
              buf \<leftarrow> store (buf, length buf) (w - 1) (CHR ''H'');
              sl \<leftarrow> slice_to buf (w - 1);
              (buf, w) \<leftarrow> fmtInt sl u;
              String_finish buf w neg
            }
            else String_finish buf w neg
          }) = Some s1"
    by auto
  from String_finish_ok [of w3 b3 neg] b3'
  obtain s2 where f: "String_finish b3 w3 neg = Some s2"
    by auto
  show ?thesis
    using st sl ff sl2 fi h f by (simp add: Let_def)
qed

lemma short_branch_ok:
  assumes len: "length buf = 32" and u: "unat u < 10 ^ 9"
  shows "\<exists>s. (do {
           buf \<leftarrow> store (buf, length buf) 31 (CHR ''S'');
           if u = 0 then Some ''PT0S''
           else do {
             sl \<leftarrow> slice_to buf 30;
             (buf, w, u) \<leftarrow> fmtFrac sl u 0;
             sl \<leftarrow> slice_to buf w;
             (buf, w) \<leftarrow> fmtInt sl u;
             String_finish buf w neg
           }
         }) = Some s"
proof -
  let ?b1 = "buf[nat 31 := CHR ''S'']"
  have st: "store (buf, length buf) 31 (CHR ''S'') = Some ?b1"
    using len by (intro store_ok) simp_all
  have sl: "slice_to ?b1 30 = Some (?b1, nat 30)"
    using len by (intro slice_to_ok) simp_all
  have "Suc 0 \<le> nat 30"
    by simp
  from fmtFrac_ok [OF this, of ?b1 u]
  obtain b2 w2 u2 where ff: "fmtFrac (?b1, nat 30) u 0 = Some (b2, w2, u2)"
    and b2: "29 \<le> w2" "w2 \<le> 30" "length b2 = 32"
    and u2: "unat u2 = unat u"
    using len by auto
  have sl2: "slice_to b2 w2 = Some (b2, nat w2)"
    using b2 by (intro slice_to_ok) simp_all
  have k: "(9::nat) \<le> nat w2"
    using b2 by linarith
  have eq: "int (nat w2) = w2"
    using b2 by simp
  have m: "unat u2 < 10 ^ 9"
    using u u2 by simp
  from fmtInt_ok [OF m _ k, of b2]
  obtain b3 w3 where fi: "fmtInt (b2, nat w2) u2 = Some (b3, w3)"
    and b3: "w2 - 9 \<le> w3" "w3 \<le> w2" "length b3 = length b2"
    unfolding eq by auto
  from String_finish_ok [of w3 b3 neg] b2 b3
  obtain s2 where f: "String_finish b3 w3 neg = Some s2"
    by auto
  show ?thesis
    using st sl ff sl2 fi f by simp
qed

text \<open>
  C9. Formatting is total: for every signed 64-bit tick count \<^verbatim>\<open>String\<close> returns a text.
  It has no error path, and no write of \<^verbatim>\<open>String\<close>, \<^verbatim>\<open>fmtFrac\<close> or \<^verbatim>\<open>fmtInt\<close> falls
  outside the 32-byte buffer (in the model an index out of range would give \<open>None\<close>).
\<close>

theorem String_total: "\<exists>s. String d = Some s"
proof -
  define buf where "buf = replicate 32 (CHR 0x00)"
  define u where "u = (if d <s 0 then - d else d)"
  have len: "length buf = 32"
    by (simp add: buf_def)
  have w: "int (length buf) - 1 = 31" "int (length buf) - 2 = 30"
    by (simp_all add: len)
  show ?thesis
  proof (cases "u < 1000000000")
    case True
    then have "unat u < 10 ^ 9"
      by (simp add: word_less_nat_alt)
    from short_branch_ok [OF len this, of "d <s 0"] True
    show ?thesis
      unfolding String_def Let_def buf_def [symmetric] u_def [symmetric] w
      by simp
  next
    case False
    with long_branch_ok [OF len, of u "d <s 0"]
    show ?thesis
      unfolding String_def Let_def buf_def [symmetric] u_def [symmetric] w
      by simp
  qed
qed

subsection \<open>What the regular expression accepts\<close>

lemma rmatch_Seq_iff:
  "x \<in> set (rmatch (Seq a b) st) \<longleftrightarrow> (\<exists>y \<in> set (rmatch a st). x \<in> set (rmatch b y))"
  by auto

lemma rmatch_SeqE:
  assumes "x \<in> set (rmatch (Seq a b) st)"
  obtains k1 s1 g1 where "(k1, s1, g1) \<in> set (rmatch a st)" "x \<in> set (rmatch b (k1, s1, g1))"
  using assms by auto

lemma rmatch_Eot_iff:
  "(k', s', g') \<in> set (rmatch Eot (k, s, g)) \<longleftrightarrow> s = [] \<and> k' = k \<and> s' = [] \<and> g' = g"
  by auto

lemma rmatch_Opt_iff:
  "x \<in> set (rmatch (Opt r) st) \<longleftrightarrow> x \<in> set (rmatch r st) \<or> x = st"
  by auto

lemma rmatch_Lit_iff:
  "(k', s', g') \<in> set (rmatch (Lit c) (k, s, g)) \<longleftrightarrow> s = c # s' \<and> k' = Suc k \<and> g' = g"
  by (cases s) auto

lemma rmatch_Plus_iff:
  "(k', s', g') \<in> set (rmatch (Plus cls) (k, s, g)) \<longleftrightarrow>
     (\<exists>j. 1 \<le> j \<and> j \<le> length (takeWhile (\<lambda>x. x \<in> set cls) s)
          \<and> k' = k + j \<and> s' = drop j s \<and> g' = g)"
  by (auto simp: image_iff)

lemma take_takeWhile:
  assumes "j \<le> length (takeWhile P s)"
  shows "list_all P (take j s)"
proof -
  have "take j s = take j (takeWhile P s @ dropWhile P s)"
    by simp
  also have "\<dots> = take j (takeWhile P s)"
    using assms by (simp del: takeWhile_dropWhile_id)
  finally have "set (take j s) \<subseteq> set (takeWhile P s)"
    by (simp add: set_take_subset)
  then show ?thesis
    by (auto simp: list_all_iff dest: set_takeWhileD)
qed

text \<open>One optional field \<^verbatim>\<open>([class]+c)?\<close> with capturing group \<open>i\<close>.\<close>

lemma rmatch_field:
  assumes "(k', s', g') \<in> set (rmatch (Opt (Cap i (Seq (Plus cls) (Lit c)))) (k, s, g))"
  shows "\<exists>x. opt_field cls c x \<and> s = x @ s' \<and> k' = k + length x
           \<and> g' = (if x = [] then g else g[i := x])"
proof (cases "(k', s', g') = (k, s, g)")
  case True
  then show ?thesis
    by (intro exI [of _ "[]"]) (simp add: opt_field_def)
next
  case False
  with assms obtain k1 s1 g1 where
    m: "(k1, s1, g1) \<in> set (rmatch (Seq (Plus cls) (Lit c)) (k, s, g))"
    and r: "k' = k1" "s' = s1" "g' = g1[i := take (k1 - k) s]"
    by auto
  from m obtain j where j: "1 \<le> j" "j \<le> length (takeWhile (\<lambda>x. x \<in> set cls) s)"
    and d: "drop j s = c # s1" and k1: "k1 = Suc (k + j)" and g1: "g1 = g"
    unfolding rmatch_Seq_iff by (auto simp: rmatch_Plus_iff rmatch_Lit_iff)
  let ?x = "take j s @ [c]"
  have s: "s = ?x @ s1"
    using d by (metis append.assoc append_Cons append_Nil append_take_drop_id)
  have jl: "j \<le> length s"
    using j(2) length_takeWhile_le [of "\<lambda>x. x \<in> set cls" s] by linarith
  have tk: "take (k1 - k) s = ?x"
    using s k1 jl by (metis add_diff_cancel_left' append_eq_conv_conj length_append_singleton length_take min.absorb2 plus_nat.simps(2) add_Suc_right)
  have "opt_field cls c ?x"
    using j jl take_takeWhile [OF j(2)] by (auto simp: opt_field_def)
  moreover have "k' = k + length ?x"
    using r k1 jl by simp
  ultimately show ?thesis
    using s r g1 tk by (intro exI [of _ ?x]) simp
qed

lemma rmatch_time_fields:
  assumes "(k', s', g') \<in> set (rmatch (Seq rHours (Seq rMinutes rSeconds)) (k, s, [[], dd, [], [], []]))"
  shows "\<exists>hh mm ss. opt_field digits (CHR ''H'') hh \<and> opt_field digits (CHR ''M'') mm
           \<and> opt_field digits_dot (CHR ''S'') ss
           \<and> s = hh @ mm @ ss @ s' \<and> k' = k + length hh + length mm + length ss
           \<and> g' = [[], dd, hh, mm, ss]"
proof -
  from assms obtain k1 s1 g1 where
    h: "(k1, s1, g1) \<in> set (rmatch rHours (k, s, [[], dd, [], [], []]))"
    and r1: "(k', s', g') \<in> set (rmatch (Seq rMinutes rSeconds) (k1, s1, g1))"
    by (rule rmatch_SeqE)
  from rmatch_field [OF h [unfolded rHours_def]] obtain hh where
    hh: "opt_field digits (CHR ''H'') hh" "s = hh @ s1" "k1 = k + length hh"
    and g1: "g1 = [[], dd, hh, [], []]"
    by (auto split: if_splits)
  from r1 obtain k2 s2 g2 where
    m: "(k2, s2, g2) \<in> set (rmatch rMinutes (k1, s1, g1))"
    and r2: "(k', s', g') \<in> set (rmatch rSeconds (k2, s2, g2))"
    by (rule rmatch_SeqE)
  from rmatch_field [OF m [unfolded rMinutes_def]] obtain mm where
    mm: "opt_field digits (CHR ''M'') mm" "s1 = mm @ s2" "k2 = k1 + length mm"
    and g2: "g2 = [[], dd, hh, mm, []]"
    unfolding g1 by (auto split: if_splits)
  from rmatch_field [OF r2 [unfolded rSeconds_def]] obtain ss where
    ss: "opt_field digits_dot (CHR ''S'') ss" "s2 = ss @ s'" "k' = k2 + length ss"
    and g': "g' = [[], dd, hh, mm, ss]"
    unfolding g2 by (auto split: if_splits)
  show ?thesis
    using hh mm ss g' by (intro exI [of _ hh] exI [of _ mm] exI [of _ ss]) simp
qed

lemma rmatch_xmlDurationRegex:
  assumes "(k', s', g') \<in> set (rmatch xmlDurationRegex (k, s, [[], [], [], [], []]))"
  shows "k = 0 \<and> s' = [] \<and> k' = length s
         \<and> (\<exists>dd hh mm ss.
               opt_field digits (CHR ''D'') dd \<and> opt_field digits (CHR ''H'') hh
               \<and> opt_field digits (CHR ''M'') mm \<and> opt_field digits_dot (CHR ''S'') ss
               \<and> (s = ''P'' @ dd \<and> hh = [] \<and> mm = [] \<and> ss = []
                    \<or> s = ''P'' @ dd @ ''T'' @ hh @ mm @ ss)
               \<and> g' = [[], dd, hh, mm, ss])"
proof -
  let ?g0 = "[[], [], [], [], []] :: string list"
  let ?F = "Seq rHours (Seq rMinutes rSeconds)"
  from assms [unfolded xmlDurationRegex_def] obtain k1 s1 g1 where
    p: "(k1, s1, g1) \<in> set (rmatch rStart (k, s, ?g0))"
    and r1: "(k', s', g') \<in> set (rmatch (Seq rDays (rTime_rEnd ?F)) (k1, s1, g1))"
    by (rule rmatch_SeqE)
  from p have k: "k = 0" and s: "s = CHR ''P'' # s1" and k1: "k1 = 1" and g1: "g1 = ?g0"
    by (auto simp: rStart_def rmatch_Lit_iff split: if_splits)
  from r1 obtain k2 s2 g2 where
    d: "(k2, s2, g2) \<in> set (rmatch rDays (k1, s1, g1))"
    and r2: "(k', s', g') \<in> set (rmatch (rTime_rEnd ?F) (k2, s2, g2))"
    by (rule rmatch_SeqE)
  from rmatch_field [OF d [unfolded rDays_def]] obtain dd where
    dd: "opt_field digits (CHR ''D'') dd" "s1 = dd @ s2" "k2 = k1 + length dd"
    and g2: "g2 = [[], dd, [], [], []]"
    unfolding g1 by (auto split: if_splits)
  from r2 [unfolded rTime_rEnd_def] obtain k3 s3 g3 where
    t: "(k3, s3, g3) \<in> set (rmatch (Opt (Seq (Lit (CHR ''T'')) ?F)) (k2, s2, g2))"
    and e: "(k', s', g') \<in> set (rmatch Eot (k3, s3, g3))"
    by (rule rmatch_SeqE)
  from e have fin: "s3 = []" "k' = k3" "s' = s3" "g' = g3"
    by (simp_all add: rmatch_Eot_iff)
  from t consider (none) "(k3, s3, g3) = (k2, s2, g2)"
    | (some) "(k3, s3, g3) \<in> set (rmatch (Seq (Lit (CHR ''T'')) ?F) (k2, s2, g2))"
    unfolding rmatch_Opt_iff by blast
  then show ?thesis
  proof cases
    case none
    then have "s = ''P'' @ dd" "k' = length s" "g' = [[], dd, [], [], []]"
      using fin s dd k1 g2 by simp_all
    then show ?thesis
      using k fin dd(1)
      by (intro conjI exI [of _ dd] exI [of _ "[]"]) (simp_all add: opt_field_def)
  next
    case some
    then obtain k4 s4 g4 where
      l: "(k4, s4, g4) \<in> set (rmatch (Lit (CHR ''T'')) (k2, s2, g2))"
      and f: "(k3, s3, g3) \<in> set (rmatch ?F (k4, s4, g4))"
      by (rule rmatch_SeqE)
    from l have s2: "s2 = CHR ''T'' # s4" and k4: "k4 = Suc k2" and g4: "g4 = g2"
      by (simp_all add: rmatch_Lit_iff)
    from rmatch_time_fields [OF f [unfolded g4 g2]] obtain hh mm ss where
      flds: "opt_field digits (CHR ''H'') hh" "opt_field digits (CHR ''M'') mm"
        "opt_field digits_dot (CHR ''S'') ss"
      and s4: "s4 = hh @ mm @ ss @ s3"
      and k3: "k3 = k4 + length hh + length mm + length ss"
      and g3: "g3 = [[], dd, hh, mm, ss]"
      by blast
    have "s = ''P'' @ dd @ ''T'' @ hh @ mm @ ss"
      using s dd s2 s4 fin by simp
    moreover from this have "k' = length s"
      using fin k3 k4 dd k1 by simp
    ultimately show ?thesis
      using k fin dd(1) flds g3
      by (intro conjI exI [of _ dd] exI [of _ hh] exI [of _ mm] exI [of _ ss]) simp_all
  qed
qed

lemma first_match_Some:
  assumes "first_match r n str is = Some parts"
  shows "\<exists>i \<in> set is. match_at r n str i = Some parts"
  using assms by (induction "is") (auto split: option.splits)

text \<open>What \<^verbatim>\<open>FindStringSubmatch\<close> returns for the expression of the source: the whole
  text and the four fields, each empty or of its shape.\<close>

lemma FindStringSubmatch_shape:
  assumes "FindStringSubmatch xmlDurationRegex 4 str = Some parts"
  shows "\<exists>dd hh mm ss.
           opt_field digits (CHR ''D'') dd \<and> opt_field digits (CHR ''H'') hh
           \<and> opt_field digits (CHR ''M'') mm \<and> opt_field digits_dot (CHR ''S'') ss
           \<and> (str = ''P'' @ dd \<and> hh = [] \<and> mm = [] \<and> ss = []
                \<or> str = ''P'' @ dd @ ''T'' @ hh @ mm @ ss)
           \<and> parts = [str, dd, hh, mm, ss]"
proof -
  from first_match_Some [OF assms [unfolded FindStringSubmatch_def]]
  obtain i where i: "match_at xmlDurationRegex 4 str i = Some parts"
    by blast
  have rep: "replicate (Suc 4) [] = [[], [], [], [], [] :: string]"
    by (simp add: numeral_eq_Suc)
  from i obtain k' s' g' rest where
    hd: "rmatch xmlDurationRegex (i, drop i str, [[], [], [], [], []]) = (k', s', g') # rest"
    and parts: "parts = g'[0 := take (k' - i) (drop i str)]"
    unfolding match_at_def rep by (auto split: list.splits)
  from hd have "(k', s', g') \<in> set (rmatch xmlDurationRegex (i, drop i str, [[], [], [], [], []]))"
    by simp
  from rmatch_xmlDurationRegex [OF this] obtain dd hh mm ss where
    i0: "i = 0" and k': "k' = length (drop i str)"
    and flds: "opt_field digits (CHR ''D'') dd" "opt_field digits (CHR ''H'') hh"
      "opt_field digits (CHR ''M'') mm" "opt_field digits_dot (CHR ''S'') ss"
    and shape: "drop i str = ''P'' @ dd \<and> hh = [] \<and> mm = [] \<and> ss = []
                \<or> drop i str = ''P'' @ dd @ ''T'' @ hh @ mm @ ss"
    and g': "g' = [[], dd, hh, mm, ss]"
    by blast
  show ?thesis
    using flds shape parts g' i0 k'
    by (intro exI [of _ dd] exI [of _ hh] exI [of _ mm] exI [of _ ss]) simp
qed

lemma parseDuration_InrD:
  assumes "parseDuration oor str = Inr d"
  shows "3 \<le> length str" "\<not> Contains str ''-''"
    "\<exists>parts. FindStringSubmatch xmlDurationRegex 4 str = Some parts"
proof -
  show 1: "3 \<le> length str"
    using assms by (cases "length str < 3") (simp_all add: parseDuration_def)
  show 2: "\<not> Contains str ''-''"
    using assms 1 by (cases "Contains str ''-''") (simp_all add: parseDuration_def)
  have "Match xmlDurationRegex 4 str"
    using assms 1 2 by (cases "Match xmlDurationRegex 4 str") (simp_all add: parseDuration_def)
  then show "\<exists>parts. FindStringSubmatch xmlDurationRegex 4 str = Some parts"
    by (simp add: Match_def)
qed

lemma opt_fieldE:
  assumes "opt_field cls c x" "x \<noteq> []"
  obtains ds where "x = ds @ [c]" "ds \<noteq> []" "set ds \<subseteq> set cls"
proof -
  from assms(2) obtain ys y where x: "x = ys @ [y]"
    by (cases x rule: rev_cases) auto
  with assms have "ys \<noteq> []" "list_all (\<lambda>a. a \<in> set cls) ys" "y = c"
    by (simp_all add: opt_field_def)
  then show thesis
    using x that [of ys] by (auto simp: list_all_iff)
qed

lemma opt_field_chars:
  assumes "opt_field cls c x" "a \<in> set x"
  shows "a \<in> set cls \<or> a = c"
proof -
  from assms(2) have "x \<noteq> []"
    by auto
  from opt_fieldE [OF assms(1) this] obtain ds where "x = ds @ [c]" "set ds \<subseteq> set cls" .
  then show ?thesis
    using assms(2) by auto
qed

text \<open>
  C4, as the specification states it, fails: the \<^verbatim>\<open>T\<close> marker need not be absent when no
  time field follows it. The group after \<^verbatim>\<open>T\<close> consists of three optional fields, so
  \<^verbatim>\<open>"P1DT"\<close> matches the expression, as the format \<^verbatim>\<open>P[nD][T[nH][nM][nS]]\<close> of the error
  message also allows, and parses as one day.
\<close>

theorem T_without_time_field_counterexample:
  "CHR ''T'' \<in> set ''P1DT''
   \<and> CHR ''H'' \<notin> set ''P1DT'' \<and> CHR ''M'' \<notin> set ''P1DT'' \<and> CHR ''S'' \<notin> set ''P1DT''
   \<and> parseDuration oor_amd64 ''P1DT'' = Inr (24 * Hour)"
  by code_simp

text \<open>
  C4, amended. \<^verbatim>\<open>parseDuration\<close> accepts a string only when it is \<^verbatim>\<open>P\<close>, then an
  optional day field, then nothing or the marker \<^verbatim>\<open>T\<close> followed by an optional hour
  field, an optional minute field and an optional seconds field, in that order. A field
  is one or more digits (digits and dots for the seconds) and its designator. So the
  fields appear in the fixed order days, hours, minutes, seconds, and the \<^verbatim>\<open>T\<close> marker is
  present whenever any of the H/M/S fields is; \<^verbatim>\<open>T\<close> may be followed by no field at all.
\<close>

theorem parseDuration_accepts_only_grammar:
  assumes "parseDuration oor str = Inr d"
  shows "(\<exists>dd tt. str = ''P'' @ dd @ tt \<and> opt_field digits (CHR ''D'') dd
           \<and> (tt = [] \<or> (\<exists>hh mm ss. tt = ''T'' @ hh @ mm @ ss
                 \<and> opt_field digits (CHR ''H'') hh \<and> opt_field digits (CHR ''M'') mm
                 \<and> opt_field digits_dot (CHR ''S'') ss)))
         \<and> (CHR ''T'' \<in> set str
              \<or> (CHR ''H'' \<notin> set str \<and> CHR ''M'' \<notin> set str \<and> CHR ''S'' \<notin> set str))"
proof -
  from parseDuration_InrD(3) [OF assms] obtain parts where
    "FindStringSubmatch xmlDurationRegex 4 str = Some parts"
    by blast
  from FindStringSubmatch_shape [OF this] obtain dd hh mm ss where
    flds: "opt_field digits (CHR ''D'') dd" "opt_field digits (CHR ''H'') hh"
      "opt_field digits (CHR ''M'') mm" "opt_field digits_dot (CHR ''S'') ss"
    and shape: "str = ''P'' @ dd \<or> str = ''P'' @ dd @ ''T'' @ hh @ mm @ ss"
    by blast
  from shape show ?thesis
  proof
    assume s: "str = ''P'' @ dd"
    have "a \<in> set digits \<or> a = CHR ''D''" if "a \<in> set dd" for a
      using opt_field_chars [OF flds(1) that] .
    then have "CHR ''H'' \<notin> set dd \<and> CHR ''M'' \<notin> set dd \<and> CHR ''S'' \<notin> set dd"
      by (auto simp: digits_def)
    then show ?thesis
      using s flds(1) by (intro conjI exI [of _ dd] exI [of _ "[]"]) simp_all
  next
    assume s: "str = ''P'' @ dd @ ''T'' @ hh @ mm @ ss"
    then show ?thesis
      using flds by (intro conjI exI [of _ dd] exI [of _ "''T'' @ hh @ mm @ ss"]) auto
  qed
qed

theorem parseDuration_accepts_only_grammar_witness:
  "parseDuration oor_amd64 ''PT1M30S'' = Inr (90 * Second)
   \<and> (\<exists>dd tt. ''PT1M30S'' = ''P'' @ dd @ tt \<and> opt_field digits (CHR ''D'') dd
           \<and> (tt = [] \<or> (\<exists>hh mm ss. tt = ''T'' @ hh @ mm @ ss
                 \<and> opt_field digits (CHR ''H'') hh \<and> opt_field digits (CHR ''M'') mm
                 \<and> opt_field digits_dot (CHR ''S'') ss)))"
  using parseDuration_PT1M30S
    conjunct1 [OF parseDuration_accepts_only_grammar [OF parseDuration_PT1M30S]]
  by (rule conjI)

subsection \<open>The conversions of the fields\<close>

lemma TrimRight_designator:
  assumes "c \<notin> set ds"
  shows "TrimRight (ds @ [c]) [c] = ds"
proof -
  have "dropWhile (\<lambda>a. a \<in> set [c]) (rev ds) = rev ds"
    using assms by (cases ds rule: rev_cases) auto
  then show ?thesis
    by (simp add: TrimRight_def)
qed

lemma digit_val_bounds:
  assumes "c \<in> set digits"
  shows "0 \<le> digit_val c \<and> digit_val c \<le> 9"
  using assms by (auto simp: digits_def digit_val_def)

lemma decimal_snoc: "decimal (ds @ [c]) = 10 * decimal ds + digit_val c"
  by (simp add: decimal_def)

lemma decimal_bounds:
  assumes "set ds \<subseteq> set digits"
  shows "0 \<le> decimal ds \<and> decimal ds < 10 ^ length ds"
  using assms
proof (induction ds rule: rev_induct)
  case Nil
  then show ?case by (simp add: decimal_def)
next
  case (snoc c ds)
  then have "0 \<le> decimal ds" "decimal ds < 10 ^ length ds"
    and "0 \<le> digit_val c" "digit_val c \<le> 9"
    using digit_val_bounds [of c] by simp_all
  then show ?case
    by (simp add: decimal_snoc)
qed

lemma Atoi_digits:
  assumes "ds \<noteq> []" "set ds \<subseteq> set digits" "decimal ds < 2 ^ 63"
  shows "Atoi ds = Inr (word_of_int (decimal ds))"
proof -
  from assms(1,2) have "hd ds \<in> set digits"
    by (cases ds) auto
  then have "hd ds \<noteq> CHR ''-''" "hd ds \<noteq> CHR ''+''"
    by (auto simp: digits_def)
  moreover have "\<not> list_ex (\<lambda>c. c \<notin> set digits) ds"
    using assms(2) by (auto simp: list_ex_iff)
  ultimately show ?thesis
    using assms(1,3) by (simp add: Atoi_def)
qed

lemma bit_length_nonneg: "0 \<le> bit_length n"
  by (induction n rule: bit_length.induct) (subst bit_length.simps, simp)

lemma bit_length_pos:
  assumes "1 \<le> q"
  shows "1 \<le> bit_length q"
  using assms bit_length_nonneg [of "q div 2"] by (subst bit_length.simps) simp

lemma bit_length_le:
  assumes "p < 2 ^ k"
  shows "bit_length p \<le> int k"
  using assms
proof (induction k arbitrary: p)
  case 0
  then show ?case by (subst bit_length.simps) simp
next
  case (Suc k)
  show ?case
  proof (cases "p \<le> 0")
    case True
    then show ?thesis by (subst bit_length.simps) simp
  next
    case False
    have "p div 2 < 2 ^ k"
      using Suc.prems by simp
    from Suc.IH [OF this] False show ?thesis
      by (subst bit_length.simps) simp
  qed
qed

lemma ilog2_le:
  assumes "1 \<le> q" "p < 2 ^ k"
  shows "ilog2 p q \<le> int k - 1"
proof -
  have "ilog2 p q \<le> bit_length p - bit_length q"
    by (simp add: ilog2_def Let_def)
  then show ?thesis
    using bit_length_le [OF assms(2)] bit_length_pos [OF assms(1)] by linarith
qed

declare bit_length.simps [simp del]

lemma f64_round_finite:
  assumes p: "0 \<le> p" "p < 2 ^ 1023" and q: "1 \<le> q"
  shows "f64_round p q \<noteq> PosInf"
proof (cases "p = 0")
  case True
  then show ?thesis by (simp add: f64_round_def)
next
  case False
  define s where "s = max (ilog2 p q - 52) (- 1074)"
  define num where "num = (if 0 \<le> s then p else p * 2 ^ nat (- s))"
  define den where "den = (if 0 \<le> s then q * 2 ^ nat s else q)"
  define n where "n = (if den < 2 * (num mod den) \<or> (2 * (num mod den) = den \<and> odd (num div den))
                       then num div den + 1 else num div den)"
  have fr: "f64_round p q = (if 0 \<le> s \<and> 2 ^ 1024 \<le> n * 2 ^ nat s then PosInf else Finite n s)"
    using False by (simp only: f64_round_def Let_def s_def num_def den_def n_def if_False)
  have "\<not> (0 \<le> s \<and> 2 ^ 1024 \<le> n * 2 ^ nat s)"
  proof
    assume a: "0 \<le> s \<and> 2 ^ 1024 \<le> n * 2 ^ nat s"
    then have s0: "0 \<le> s" by simp
    have "s \<le> 970"
      using ilog2_le [OF q p(2)] s0 by (simp add: s_def)
    then obtain t where t: "nat s = t" "t \<le> 970"
      using s0 by simp
    have num: "num = p" and den: "den = q * 2 ^ t"
      using s0 t by (simp_all add: num_def den_def)
    have "(1023 - t) + t = 1023"
      using t(2) by simp
    then have pw: "(2::int) ^ (1023 - t) * 2 ^ t = 2 ^ 1023"
      by (simp only: flip: power_add)
    have "(2::int) ^ t \<le> den"
      using q by (simp add: den)
    then have "p div den \<le> p div 2 ^ t"
      using p(1) by (intro zdiv_mono2) simp_all
    moreover have "p div 2 ^ t < 2 ^ (1023 - t)"
    proof -
      have c: "(0::int) < 2 ^ t"
        by simp
      have "p div 2 ^ t * 2 ^ t + p mod 2 ^ t = p"
        by (rule div_mult_mod_eq)
      moreover have "0 \<le> p mod 2 ^ t"
        using c by simp
      moreover have "p < 2 ^ (1023 - t) * 2 ^ t"
        using p(2) unfolding pw .
      ultimately have "p div 2 ^ t * 2 ^ t < 2 ^ (1023 - t) * 2 ^ t"
        by linarith
      then show ?thesis
        using c by (simp only: mult_less_cancel_right_pos)
    qed
    ultimately have "n \<le> 2 ^ (1023 - t)"
      by (simp add: n_def num)
    then have "n * 2 ^ t \<le> 2 ^ (1023 - t) * 2 ^ t"
      by (intro mult_right_mono) simp_all
    then have "n * 2 ^ t \<le> 2 ^ 1023"
      unfolding pw .
    moreover have "(2::int) ^ 1023 < 2 ^ 1024"
      by (rule power_strict_increasing) simp_all
    ultimately have "n * 2 ^ t < 2 ^ 1024"
      by (rule le_less_trans)
    moreover have "2 ^ 1024 \<le> n * 2 ^ t"
      using a unfolding t(1) by (rule conjunct2)
    ultimately show False
      by (blast dest: leD)
  qed
  then show ?thesis
    by (simp add: fr)
qed

lemma pow10_307: "(10::int) ^ 307 < 2 ^ 1023"
  by simp

lemma digits_dot_cases:
  assumes "c \<in> set digits_dot"
  shows "c \<in> set digits \<or> c = CHR ''.''"
  using assms by (auto simp: digits_def digits_dot_def)

lemma ParseFloat_ok:
  assumes alpha: "set ds \<subseteq> set digits_dot"
    and dots: "count_list ds (CHR ''.'') \<le> 1"
    and dig: "list_ex is_digit ds"
    and len: "length ds \<le> 307"
  shows "\<exists>m e. ParseFloat ds = Inr (Finite m e)"
proof -
  define ip where "ip = takeWhile is_digit ds"
  define rest where "rest = dropWhile is_digit ds"
  define fp where "fp = (if rest = [] then [] else tl rest)"
  have ds: "ds = ip @ rest"
    by (simp add: ip_def rest_def)
  have ip: "set ip \<subseteq> set digits"
    by (auto simp: ip_def is_digit_def dest: set_takeWhileD)
  have hd: "hd rest = CHR ''.''" if "rest \<noteq> []"
  proof -
    have "\<not> is_digit (hd rest)"
      using that unfolding rest_def by (rule hd_dropWhile)
    moreover have "hd rest \<in> set digits_dot"
      using that alpha ds by (cases rest) auto
    ultimately show ?thesis
      using digits_dot_cases by (auto simp: is_digit_def)
  qed
  have rest: "rest = (if rest = [] then [] else CHR ''.'' # fp)"
    using hd by (cases rest) (auto simp: fp_def)
  have fp: "set fp \<subseteq> set digits"
  proof (cases "rest = []")
    case True
    then show ?thesis by (simp add: fp_def)
  next
    case False
    then have r: "rest = CHR ''.'' # fp"
      using rest by metis
    have "count_list fp (CHR ''.'') = 0"
      using dots unfolding ds r by simp
    then have "CHR ''.'' \<notin> set fp"
      by (simp add: count_list_0_iff)
    moreover have "set fp \<subseteq> set digits_dot"
      using alpha unfolding ds r by auto
    ultimately show ?thesis
      using digits_dot_cases by blast
  qed
  have nonempty: "\<not> (ip = [] \<and> fp = [])"
  proof
    assume "ip = [] \<and> fp = []"
    then have "ds = [] \<or> ds = ''.''"
      using ds rest by (cases "rest = []") auto
    then show False
      using dig by (auto simp: is_digit_def digits_def)
  qed
  have "length fp \<le> length rest"
    by (simp add: fp_def)
  then have "length (ip @ fp) \<le> 307"
    using len unfolding ds by simp
  then have "(10::int) ^ length (ip @ fp) \<le> 10 ^ 307"
    by (intro power_increasing) simp_all
  moreover have d: "0 \<le> decimal (ip @ fp)" "decimal (ip @ fp) < 10 ^ length (ip @ fp)"
    using decimal_bounds [of "ip @ fp"] ip fp by simp_all
  ultimately have "decimal (ip @ fp) < 2 ^ 1023"
    using pow10_307 by linarith
  from f64_round_finite [OF d(1) this, of "10 ^ length fp"]
  obtain m e where "f64_round (decimal (ip @ fp)) (10 ^ length fp) = Finite m e"
    by (cases "f64_round (decimal (ip @ fp)) (10 ^ length fp)") simp_all
  moreover have "\<not> (rest \<noteq> [] \<and> hd rest \<noteq> CHR ''.'')"
    using hd by blast
  moreover have "\<not> list_ex (\<lambda>c. c \<notin> set digits) fp"
    using fp by (auto simp: list_ex_iff)
  ultimately show ?thesis
    using nonempty
    by (simp only: ParseFloat_def Let_def ip_def [symmetric] rest_def [symmetric]
        fp_def [symmetric] if_False f64.case) blast
qed

lemma int_field_ok:
  assumes len: "i < length parts"
    and fld: "opt_field digits c (parts ! i)"
    and c: "c \<notin> set digits"
    and rng: "decimal (TrimRight (parts ! i) [c]) < 2 ^ 63"
  shows "\<exists>t. int_field parts i [c] wrap unit tot = Inr t"
proof (cases "parts ! i = []")
  case True
  then show ?thesis
    using len by (simp add: int_field_def index_def)
next
  case False
  from opt_fieldE [OF fld False] obtain ds where
    ds: "parts ! i = ds @ [c]" "ds \<noteq> []" "set ds \<subseteq> set digits" .
  have "c \<notin> set ds"
    using ds(3) c by auto
  then have tr: "TrimRight (parts ! i) [c] = ds"
    unfolding ds(1) by (rule TrimRight_designator)
  have "Atoi ds = Inr (word_of_int (decimal ds))"
    using ds(2,3) rng unfolding tr by (rule Atoi_digits)
  then show ?thesis
    using len False tr by (simp add: int_field_def index_def)
qed

lemma float_field_ok:
  assumes len: "4 < length parts"
    and fld: "opt_field digits_dot (CHR ''S'') (parts ! 4)"
    and ok: "parts ! 4 = []
             \<or> (count_list (parts ! 4) (CHR ''.'') \<le> 1 \<and> list_ex is_digit (parts ! 4)
                 \<and> length (parts ! 4) \<le> 308)"
  shows "\<exists>t. float_field oor parts tot = Inr t"
proof (cases "parts ! 4 = []")
  case True
  then show ?thesis
    using len by (simp add: float_field_def index_def)
next
  case False
  from opt_fieldE [OF fld False] obtain ds where
    ds: "parts ! 4 = ds @ ''S''" "ds \<noteq> []" "set ds \<subseteq> set digits_dot" .
  have "CHR ''S'' \<notin> set digits_dot"
    by (simp add: digits_dot_def)
  then have "CHR ''S'' \<notin> set ds"
    using ds(3) by auto
  then have tr: "TrimRight (parts ! 4) ''S'' = ds"
    unfolding ds(1) by (rule TrimRight_designator)
  have "\<not> is_digit (CHR ''S'')"
    by (simp add: is_digit_def digits_def)
  then have "count_list ds (CHR ''.'') \<le> 1" "list_ex is_digit ds" "length ds \<le> 307"
    using ok False unfolding ds(1) by simp_all
  from ParseFloat_ok [OF ds(3) this] obtain m e where "ParseFloat ds = Inr (Finite m e)"
    by blast
  then show ?thesis
    using len False tr by (simp add: float_field_def index_def)
qed

text \<open>The input \<^verbatim>\<open>"P3DT4H5M6.7S"\<close>, with all four fields.\<close>

lemma sample_length: "3 \<le> length ''P3DT4H5M6.7S''"
  by simp

lemma sample_no_minus: "\<not> Contains ''P3DT4H5M6.7S'' ''-''"
  by code_simp

lemma sample_matches: "Match xmlDurationRegex 4 ''P3DT4H5M6.7S''"
  by code_simp

lemma sample_parts:
  "FindStringSubmatch xmlDurationRegex 4 ''P3DT4H5M6.7S''
     = Some [''P3DT4H5M6.7S'', ''3D'', ''4H'', ''5M'', ''6.7S'']"
  by code_simp

lemma sample_days:
  "decimal (TrimRight ([''P3DT4H5M6.7S'', ''3D'', ''4H'', ''5M'', ''6.7S''] ! 1) ''D'') < 2 ^ 63"
  by code_simp

lemma sample_hours:
  "decimal (TrimRight ([''P3DT4H5M6.7S'', ''3D'', ''4H'', ''5M'', ''6.7S''] ! 2) ''H'') < 2 ^ 63"
  by code_simp

lemma sample_minutes:
  "decimal (TrimRight ([''P3DT4H5M6.7S'', ''3D'', ''4H'', ''5M'', ''6.7S''] ! 3) ''M'') < 2 ^ 63"
  by code_simp

lemma sample_seconds:
  "[''P3DT4H5M6.7S'', ''3D'', ''4H'', ''5M'', ''6.7S''] ! 4 = []
   \<or> (count_list ([''P3DT4H5M6.7S'', ''3D'', ''4H'', ''5M'', ''6.7S''] ! 4) (CHR ''.'') \<le> 1
      \<and> list_ex is_digit ([''P3DT4H5M6.7S'', ''3D'', ''4H'', ''5M'', ''6.7S''] ! 4)
      \<and> length ([''P3DT4H5M6.7S'', ''3D'', ''4H'', ''5M'', ''6.7S''] ! 4) \<le> 308)"
  by code_simp

text \<open>
  C3, as the specification states it, fails: an input can pass the length check, the
  sign check and the grammar check and still fail a conversion. The class \<^verbatim>\<open>[\d.]+\<close> of
  the seconds field admits texts that are no numbers, such as \<^verbatim>\<open>1.2.3\<close>, and \<^verbatim>\<open>\d+\<close>
  admits more digits than an \<^verbatim>\<open>int\<close> holds; the code reports both through the per-field
  error branch.
\<close>

theorem field_conversion_counterexample:
  "3 \<le> length ''PT1.2.3S'' \<and> \<not> Contains ''PT1.2.3S'' ''-''
   \<and> Match xmlDurationRegex 4 ''PT1.2.3S''
   \<and> parseDuration oor_amd64 ''PT1.2.3S'' = Inl (ParsingSeconds ErrSyntax)
   \<and> 3 \<le> length ''P9223372036854775808D'' \<and> \<not> Contains ''P9223372036854775808D'' ''-''
   \<and> Match xmlDurationRegex 4 ''P9223372036854775808D''
   \<and> parseDuration oor_amd64 ''P9223372036854775808D'' = Inl (ParsingDays ErrRange)"
  by code_simp

text \<open>
  C3, amended. For every input that passes the length check, the sign check and the
  grammar check, all the conversions succeed and a duration is returned, provided that
  each of the day, hour and minute counts is below \<open>2 ^ 63\<close> and that the seconds
  field, when present, has at most one dot, at least one digit and at most 308 bytes
  with its designator. (Outside these bounds the per-field error branch is reachable,
  as the two inputs above show.)
\<close>

theorem field_conversions_succeed:
  assumes "3 \<le> length str"
    and "\<not> Contains str ''-''"
    and "Match xmlDurationRegex 4 str"
    and parts: "FindStringSubmatch xmlDurationRegex 4 str = Some parts"
    and days: "decimal (TrimRight (parts ! 1) ''D'') < 2 ^ 63"
    and hours: "decimal (TrimRight (parts ! 2) ''H'') < 2 ^ 63"
    and minutes: "decimal (TrimRight (parts ! 3) ''M'') < 2 ^ 63"
    and seconds: "parts ! 4 = []
                  \<or> (count_list (parts ! 4) (CHR ''.'') \<le> 1 \<and> list_ex is_digit (parts ! 4)
                      \<and> length (parts ! 4) \<le> 308)"
  shows "\<exists>d. parseDuration oor str = Inr d"
proof -
  from FindStringSubmatch_shape [OF parts] obtain dd hh mm ss where
    flds: "opt_field digits (CHR ''D'') dd" "opt_field digits (CHR ''H'') hh"
      "opt_field digits (CHR ''M'') mm" "opt_field digits_dot (CHR ''S'') ss"
    and p: "parts = [str, dd, hh, mm, ss]"
    by blast
  have len: "1 < length parts" "2 < length parts" "3 < length parts" "4 < length parts"
    by (simp_all add: p)
  have nth: "parts ! 1 = dd" "parts ! 2 = hh" "parts ! 3 = mm" "parts ! 4 = ss"
    by (simp_all add: p)
  have nd: "CHR ''D'' \<notin> set digits" "CHR ''H'' \<notin> set digits" "CHR ''M'' \<notin> set digits"
    by (simp_all add: digits_def)
  from int_field_ok [OF len(1) _ nd(1) days, of ParsingDays "Hour * 24" 0] flds(1)
  obtain t1 where t1: "int_field parts 1 ''D'' ParsingDays (Hour * 24) 0 = Inr t1"
    unfolding nth by blast
  from int_field_ok [OF len(2) _ nd(2) hours, of ParsingHours Hour t1] flds(2)
  obtain t2 where t2: "int_field parts 2 ''H'' ParsingHours Hour t1 = Inr t2"
    unfolding nth by blast
  from int_field_ok [OF len(3) _ nd(3) minutes, of ParsingMinutes Minute t2] flds(3)
  obtain t3 where t3: "int_field parts 3 ''M'' ParsingMinutes Minute t2 = Inr t3"
    unfolding nth by blast
  from float_field_ok [OF len(4) _ seconds, of oor t3] flds(4)
  obtain t4 where t4: "float_field oor parts t3 = Inr t4"
    unfolding nth by blast
  show ?thesis
    using assms(1-3) parts t1 t2 t3 t4 by (simp add: parseDuration_def)
qed

theorem field_conversions_succeed_witness:
  "3 \<le> length ''P3DT4H5M6.7S''
   \<and> \<not> Contains ''P3DT4H5M6.7S'' ''-''
   \<and> Match xmlDurationRegex 4 ''P3DT4H5M6.7S''
   \<and> FindStringSubmatch xmlDurationRegex 4 ''P3DT4H5M6.7S''
       = Some [''P3DT4H5M6.7S'', ''3D'', ''4H'', ''5M'', ''6.7S'']
   \<and> (\<exists>d. parseDuration oor_amd64 ''P3DT4H5M6.7S'' = Inr d)"
  using sample_length sample_no_minus sample_matches sample_parts field_conversions_succeed [OF sample_length sample_no_minus sample_matches sample_parts sample_days sample_hours sample_minutes sample_seconds, of oor_amd64]
  by (intro conjI)

end
